theory Spec2Isabelle
  imports Main "HOL-Library.AList"
begin

section \<open>Python values and library functions used by fix_deps.py\<close>

text \<open>
  The script \<^verbatim>\<open>packages/WhisperDrop/scripts/fix_deps.py\<close> reads every
  \<^verbatim>\<open>package.json\<close> below the current directory, rewrites the version of
  each \<^verbatim>\<open>@styx/\<close> dependency to \<^verbatim>\<open>workspace:*\<close> and writes the
  file back when something changed.

  The value \<^verbatim>\<open>json.load\<close> returns is a tree of dicts, lists, strings, ints,
  floats, booleans and \<^verbatim>\<open>None\<close>. A dict keeps insertion order, so it is an
  association list; \<^verbatim>\<open>json.load\<close> never builds a dict with a repeated key
  (\<open>wf_json\<close> below). Floats are never inspected by the script, so their type is
  the parameter \<open>'f\<close>. A \<open>char\<close> stands for one code point below 256.
\<close>

datatype 'f json =
    JNull
  | JBool bool
  | JInt int
  | JFloat 'f
  | JStr string
  | JList "'f json list"
  | JDict "(string \<times> 'f json) list"

fun wf_json :: "'f json \<Rightarrow> bool" where
  "wf_json (JList xs) = list_all wf_json xs"
| "wf_json (JDict d) = (distinct (map fst d) \<and> list_all (\<lambda>kv. wf_json (snd kv)) d)"
| "wf_json _ = True"

text \<open>The exceptions that can leave \<^verbatim>\<open>fix_dependencies\<close>.\<close>

datatype error =
    JSONDecodeError
  | FileNotFoundError
  | TypeError
  | AttributeError
  | KeyError
  | RecursionError
  | ValueError

text \<open>\<^verbatim>\<open>s.startswith(p)\<close> and \<^verbatim>\<open>sub in s\<close> on strings.\<close>

definition startswith :: "string \<Rightarrow> string \<Rightarrow> bool" where
  "startswith s p = (take (length p) s = p)"

fun str_contains :: "string \<Rightarrow> string \<Rightarrow> bool" where
  "str_contains sub [] = (sub = [])"
| "str_contains sub (c # cs) = (startswith (c # cs) sub \<or> str_contains sub cs)"

text \<open>
  \<^verbatim>\<open>key in data\<close> for the values \<^verbatim>\<open>json.load\<close> can return: key
  membership on a dict, element membership on a list, substring test on a string,
  and \<^verbatim>\<open>TypeError\<close> (argument is not iterable) on the rest.
\<close>

fun py_in :: "string \<Rightarrow> 'f json \<Rightarrow> error + bool" where
  "py_in k (JDict d) = Inr (k \<in> fst ` set d)"
| "py_in k (JList xs) = Inr (JStr k \<in> set xs)"
| "py_in k (JStr s) = Inr (str_contains k s)"
| "py_in k _ = Inl TypeError"

text \<open>
  \<^verbatim>\<open>data[key]\<close> with a string key: a dict lookup, \<^verbatim>\<open>KeyError\<close> when the
  key is missing, \<^verbatim>\<open>TypeError\<close> on every other value (a list or a string
  wants an integer index, the rest are not subscriptable).
\<close>

fun py_getitem :: "'f json \<Rightarrow> string \<Rightarrow> error + 'f json" where
  "py_getitem (JDict d) k = (case map_of d k of None \<Rightarrow> Inl KeyError | Some v \<Rightarrow> Inr v)"
| "py_getitem _ k = Inl TypeError"

text \<open>
  \<^verbatim>\<open>v.items()\<close>: the entries of a dict in order; every other JSON value has no
  such attribute.
\<close>

fun py_items :: "'f json \<Rightarrow> error + (string \<times> 'f json) list" where
  "py_items (JDict m) = Inr m"
| "py_items _ = Inl AttributeError"

subsection \<open>\<^verbatim>\<open>json.dump(data, f, indent=2)\<close>\<close>

text \<open>
  The encoder of the standard library with its defaults and an indent: items are
  separated by a comma and a newline followed by the indentation of the level, a key
  from its value by a colon and a space, an empty list or dict is written without a
  newline, strings are escaped to ASCII. The text of a float is \<open>fr\<close>.
\<close>

definition hex_digit :: "nat \<Rightarrow> char" where
  "hex_digit n = ''0123456789abcdef'' ! (n mod 16)"

definition esc_char :: "char \<Rightarrow> string" where
  "esc_char c =
     (if c = CHR 0x22 then [CHR 0x5C, CHR 0x22]
      else if c = CHR 0x5C then [CHR 0x5C, CHR 0x5C]
      else if c = CHR 0x0A then [CHR 0x5C, CHR ''n'']
      else if c = CHR 0x0D then [CHR 0x5C, CHR ''r'']
      else if c = CHR 0x09 then [CHR 0x5C, CHR ''t'']
      else if c = CHR 0x08 then [CHR 0x5C, CHR ''b'']
      else if c = CHR 0x0C then [CHR 0x5C, CHR ''f'']
      else if 0x20 \<le> (of_char c :: nat) \<and> (of_char c :: nat) \<le> 0x7E then [c]
      else [CHR 0x5C, CHR ''u'', CHR ''0'', CHR ''0'',
            hex_digit (of_char c div 16), hex_digit (of_char c)])"

definition encode_basestring_ascii :: "string \<Rightarrow> string" where
  "encode_basestring_ascii s = [CHR 0x22] @ concat (map esc_char s) @ [CHR 0x22]"

fun nat_repr :: "nat \<Rightarrow> string" where
  "nat_repr n =
     (if n < 10 then [''0123456789'' ! n]
      else nat_repr (n div 10) @ [''0123456789'' ! (n mod 10)])"

definition int_repr :: "int \<Rightarrow> string" where
  "int_repr i = (if i < 0 then CHR ''-'' # nat_repr (nat (- i)) else nat_repr (nat i))"

definition newline_indent :: "nat \<Rightarrow> nat \<Rightarrow> string" where
  "newline_indent indent level = CHR 0x0A # replicate (indent * level) CHR '' ''"

fun join_with :: "string \<Rightarrow> string list \<Rightarrow> string" where
  "join_with sep [] = []"
| "join_with sep [x] = x"
| "join_with sep (x # y # ys) = x @ sep @ join_with sep (y # ys)"

fun iterencode :: "('f \<Rightarrow> string) \<Rightarrow> nat \<Rightarrow> nat \<Rightarrow> 'f json \<Rightarrow> string" where
  "iterencode fr indent level JNull = ''null''"
| "iterencode fr indent level (JBool b) = (if b then ''true'' else ''false'')"
| "iterencode fr indent level (JInt i) = int_repr i"
| "iterencode fr indent level (JFloat x) = fr x"
| "iterencode fr indent level (JStr s) = encode_basestring_ascii s"
| "iterencode fr indent level (JList xs) =
     (if xs = [] then ''[]''
      else ''['' @ newline_indent indent (level + 1)
           @ join_with ('','' @ newline_indent indent (level + 1))
               (map (iterencode fr indent (level + 1)) xs)
           @ newline_indent indent level @ '']'')"
| "iterencode fr indent level (JDict d) =
     (if d = [] then ''{}''
      else ''{'' @ newline_indent indent (level + 1)
           @ join_with ('','' @ newline_indent indent (level + 1))
               (map (\<lambda>kv. encode_basestring_ascii (fst kv) @ '': ''
                           @ iterencode fr indent (level + 1) (snd kv)) d)
           @ newline_indent indent level @ ''}'')"

definition json_dump :: "('f \<Rightarrow> string) \<Rightarrow> nat \<Rightarrow> 'f json \<Rightarrow> string" where
  "json_dump fr indent data = iterencode fr indent 0 data"


section \<open>The world the script runs in\<close>

text \<open>
  \<^verbatim>\<open>json.load\<close> is the library's parser: on a text it returns a value or raises.
  The script catches \<^verbatim>\<open>json.JSONDecodeError\<close> only, so any other exception of
  the parser (\<^verbatim>\<open>RecursionError\<close> on very deep nesting, for one) is a separate
  outcome. The parser and the text of a float are parameters of the model.
\<close>

record 'f pylib =
  json_load :: "string \<Rightarrow> error + 'f json"
  float_repr :: "'f \<Rightarrow> string"

text \<open>
  What the script prints: \<^verbatim>\<open>Error decoding {file_path}\<close> and
  \<^verbatim>\<open>Updating {pkg} in {file_path} from {version} to workspace:*\<close>, kept with
  their interpolated fields.
\<close>

datatype 'f msg =
    Error_decoding string
  | Updating string string "'f json"

text \<open>
  The files by path with their text, the lines printed so far, and the paths opened
  for writing so far, in order.
\<close>

record 'f world =
  contents :: "string \<rightharpoonup> string"
  stdout :: "'f msg list"
  writes :: "string list"

text \<open>
  A directory as \<^verbatim>\<open>os.walk\<close> sees it: the names of its entries that are not
  directories, and its subdirectories by name, both in listing order.
\<close>

datatype dir_tree = Dir "string list" "(string \<times> dir_tree) list"

text \<open>\<^verbatim>\<open>os.path.join(a, b)\<close> of posixpath.\<close>

definition os_path_join :: "string \<Rightarrow> string \<Rightarrow> string" where
  "os_path_join a b =
     (if startswith b ''/'' then b
      else if a = [] \<or> last a = CHR ''/'' then a @ b
      else a @ ''/'' @ b)"

text \<open>
  \<^verbatim>\<open>os.walk(root)\<close>, top-down: the directory itself first, as
  \<^verbatim>\<open>(root, dirs, files)\<close>, then each subdirectory in turn under the joined path.
\<close>

fun os_walk :: "string \<Rightarrow> dir_tree \<Rightarrow> (string \<times> string list \<times> string list) list" where
  "os_walk root (Dir nondirs subs) =
     (root, map fst subs, nondirs)
     # concat (map (\<lambda>e. os_walk (os_path_join root (fst e)) (snd e)) subs)"

section \<open>fix_deps.py\<close>

subsection \<open>\<^verbatim>\<open>fix_dependencies\<close>\<close>

text \<open>
  The inner loop, \<^verbatim>\<open>for pkg, version in data[dep_type].items()\<close>. The dict \<open>m\<close>
  is \<^verbatim>\<open>data[dep_type]\<close>; the loop only overwrites the value of the key it is
  visiting, and the keys of a dict are distinct, so the entries it visits are the
  ones the dict had when the loop started.
\<close>

fun fix_entries ::
  "string \<Rightarrow> (string \<times> 'f json) list \<Rightarrow> (string \<times> 'f json) list \<Rightarrow> bool \<Rightarrow> 'f msg list
   \<Rightarrow> (string \<times> 'f json) list \<times> bool \<times> 'f msg list" where
  "fix_entries file_path [] m changed log = (m, changed, log)"
| "fix_entries file_path ((pkg, version) # rest) m changed log =
     (if startswith pkg ''@styx/'' \<and> version \<noteq> JStr ''workspace:*''
      then fix_entries file_path rest (AList.update pkg (JStr ''workspace:*'') m) True
             (log @ [Updating pkg file_path version])
      else fix_entries file_path rest m changed log)"

text \<open>
  The inner dict is mutated in place through \<^verbatim>\<open>data[dep_type]\<close>; in the model
  the mutated dict is stored back under its key. This is only reached when
  \<^verbatim>\<open>data\<close> is a dict.
\<close>

fun store_back :: "'f json \<Rightarrow> string \<Rightarrow> 'f json \<Rightarrow> 'f json" where
  "store_back (JDict d) k v = JDict (AList.update k v d)"
| "store_back data k v = data"

text \<open>
  The outer loop, \<^verbatim>\<open>for dep_type in [...]\<close>, with \<^verbatim>\<open>if dep_type in data\<close>.
  \<open>log\<close> collects the lines the scan prints, in order; an exception leaves with
  the lines printed so far.
\<close>

fun fix_dep_types ::
  "string \<Rightarrow> string list \<Rightarrow> 'f json \<Rightarrow> bool \<Rightarrow> 'f msg list
   \<Rightarrow> error \<times> 'f msg list + 'f json \<times> bool \<times> 'f msg list" where
  "fix_dep_types file_path [] data changed log = Inr (data, changed, log)"
| "fix_dep_types file_path (dep_type # rest) data changed log =
     (case py_in dep_type data of
        Inl e \<Rightarrow> Inl (e, log)
      | Inr False \<Rightarrow> fix_dep_types file_path rest data changed log
      | Inr True \<Rightarrow>
          (case py_getitem data dep_type of
             Inl e \<Rightarrow> Inl (e, log)
           | Inr v \<Rightarrow>
               (case py_items v of
                  Inl e \<Rightarrow> Inl (e, log)
                | Inr items \<Rightarrow>
                    (case fix_entries file_path items items changed log of
                       (m, changed', log') \<Rightarrow>
                         fix_dep_types file_path rest
                           (store_back data dep_type (JDict m)) changed' log'))))"

abbreviation dep_types :: "string list" where
  "dep_types \<equiv> [''dependencies'', ''devDependencies'', ''peerDependencies'']"

text \<open>
  The whole function. A missing file makes \<^verbatim>\<open>open\<close> raise; a
  \<^verbatim>\<open>JSONDecodeError\<close> is printed and the function returns; the file is opened
  for writing only when \<^verbatim>\<open>changed\<close> is set, and then receives the dump of the
  whole object followed by one newline. An exception carries the world as it was when
  it was raised.
\<close>

definition fix_dependencies ::
  "'f pylib \<Rightarrow> string \<Rightarrow> 'f world \<Rightarrow> error \<times> 'f world + 'f world" where
  "fix_dependencies L file_path w =
     (case contents w file_path of
        None \<Rightarrow> Inl (FileNotFoundError, w)
      | Some text \<Rightarrow>
          (case json_load L text of
             Inl e \<Rightarrow>
               (if e = JSONDecodeError
                then Inr (w\<lparr>stdout := stdout w @ [Error_decoding file_path]\<rparr>)
                else Inl (e, w))
           | Inr data \<Rightarrow>
               (case fix_dep_types file_path dep_types data False [] of
                  Inl (e, log) \<Rightarrow> Inl (e, w\<lparr>stdout := stdout w @ log\<rparr>)
                | Inr (data', changed, log) \<Rightarrow>
                    (if changed
                     then Inr (w\<lparr>contents := (contents w)
                                   (file_path \<mapsto> json_dump (float_repr L) 2 data' @ [CHR 0x0A]),
                                 stdout := stdout w @ log,
                                 writes := writes w @ [file_path]\<rparr>)
                     else Inr (w\<lparr>stdout := stdout w @ log\<rparr>)))))"

subsection \<open>\<^verbatim>\<open>main\<close>\<close>

text \<open>The discovery loop over \<^verbatim>\<open>os.walk('.')\<close>, appending to \<^verbatim>\<open>package_files\<close>.\<close>

fun find_package_files ::
  "(string \<times> string list \<times> string list) list \<Rightarrow> string list \<Rightarrow> string list" where
  "find_package_files [] package_files = package_files"
| "find_package_files ((root, dirs, files) # rest) package_files =
     (if str_contains ''node_modules'' root then find_package_files rest package_files
      else if ''package.json'' \<in> set files
      then find_package_files rest (package_files @ [os_path_join root ''package.json''])
      else find_package_files rest package_files)"

text \<open>The second loop: an exception of one file ends the run.\<close>

fun process_files ::
  "'f pylib \<Rightarrow> string list \<Rightarrow> 'f world \<Rightarrow> error \<times> 'f world + 'f world" where
  "process_files L [] w = Inr w"
| "process_files L (file_path # rest) w =
     (case fix_dependencies L file_path w of
        Inl ew \<Rightarrow> Inl ew
      | Inr w' \<Rightarrow> process_files L rest w')"

definition main :: "'f pylib \<Rightarrow> dir_tree \<Rightarrow> 'f world \<Rightarrow> error \<times> 'f world + 'f world" where
  "main L tree w = process_files L (find_package_files (os_walk ''.'' tree) []) w"

section \<open>Notions used to state the properties\<close>

text \<open>
  An entry the scan rewrites: an internal package whose specifier is not the
  workspace pointer.
\<close>

definition internal_stale :: "string \<times> 'f json \<Rightarrow> bool" where
  "internal_stale e = (startswith (fst e) ''@styx/'' \<and> snd e \<noteq> JStr ''workspace:*'')"

text \<open>A parsed manifest with such an entry in one of the three dependency dicts.\<close>

fun has_stale_entry :: "'f json \<Rightarrow> bool" where
  "has_stale_entry (JDict d) =
     list_ex (\<lambda>t. case map_of d t of
                     Some (JDict m) \<Rightarrow> list_ex internal_stale m
                   | _ \<Rightarrow> False) dep_types"
| "has_stale_entry _ = False"

text \<open>The world a call leaves behind, whether it returned or raised.\<close>

fun final_world :: "error \<times> 'f world + 'f world \<Rightarrow> 'f world" where
  "final_world (Inl (e, w)) = w"
| "final_world (Inr w) = w"

text \<open>The segments of a path, as \<^verbatim>\<open>path.split('/')\<close> gives them.\<close>

fun split_path :: "string \<Rightarrow> string list" where
  "split_path [] = [[]]"
| "split_path (c # cs) =
     (if c = CHR ''/'' then [] # split_path cs
      else (case split_path cs of [] \<Rightarrow> [[c]] | s # ss \<Rightarrow> (c # s) # ss))"

text \<open>
  The directories reached from a directory by a chain of names (when two entries
  carry the same name there can be several), and the path \<^verbatim>\<open>os.walk\<close> builds
  for that chain.
\<close>

fun dirs_at :: "dir_tree \<Rightarrow> string list \<Rightarrow> dir_tree list" where
  "dirs_at t [] = [t]"
| "dirs_at (Dir nondirs subs) (n # ns) =
     concat (map (\<lambda>e. if fst e = n then dirs_at (snd e) ns else []) subs)"

definition walk_path :: "string \<Rightarrow> string list \<Rightarrow> string" where
  "walk_path root ns = foldl os_path_join root ns"

text \<open>
  What the second run needs of the library on one file: when the scan of the parsed
  text changes something, the parsed value has no repeated key, and the text written
  (the dump and a newline) parses back to the value dumped.
\<close>

definition reads_back :: "'f pylib \<Rightarrow> string \<Rightarrow> string option \<Rightarrow> bool" where
  "reads_back L file_path content =
     (case content of
        None \<Rightarrow> True
      | Some text \<Rightarrow>
          (case json_load L text of
             Inl e \<Rightarrow> True
           | Inr data \<Rightarrow>
               (case fix_dep_types file_path dep_types data False [] of
                  Inl el \<Rightarrow> True
                | Inr (data', changed, log) \<Rightarrow>
                    changed \<longrightarrow>
                      wf_json data \<and>
                      json_load L (json_dump (float_repr L) 2 data' @ [CHR 0x0A]) = Inr data')))"

text \<open>
  What one visit of the inner loop does to the dict, and whether one of the dicts under
  the given field names holds an entry the scan rewrites.
\<close>

definition rewrite_entry ::
  "string \<times> 'f json \<Rightarrow> (string \<times> 'f json) list \<Rightarrow> (string \<times> 'f json) list" where
  "rewrite_entry e m =
     (if internal_stale e then AList.update (fst e) (JStr ''workspace:*'') m else m)"

definition stale_in :: "string list \<Rightarrow> (string \<times> 'f json) list \<Rightarrow> bool" where
  "stale_in ts d = (\<exists>t\<in>set ts. \<exists>m. map_of d t = Some (JDict m) \<and> list_ex internal_stale m)"

subsection \<open>A small workspace to run the script on\<close>

text \<open>
  Five manifests and their parsed values: the example of the specification under
  \<^verbatim>\<open>packages/a\<close>, an already normalized one, one whose internal specifier is an
  object, one whose \<^verbatim>\<open>dependencies\<close> is a string, and one that is not JSON.
  The parser of the example knows these texts and the text the script writes for the
  first one.
\<close>

definition a_text :: string where
  "a_text = ''{\"dependencies\": {\"@styx/core\": \"^1.0.0\", \"lodash\": \"^4.0.0\"}}''"

definition a_data :: "unit json" where
  "a_data = JDict [(''dependencies'',
              JDict [(''@styx/core'', JStr ''^1.0.0''), (''lodash'', JStr ''^4.0.0'')])]"

definition a_fixed :: "unit json" where
  "a_fixed = JDict [(''dependencies'',
               JDict [(''@styx/core'', JStr ''workspace:*''), (''lodash'', JStr ''^4.0.0'')])]"

definition a_fixed_text :: string where
  "a_fixed_text = json_dump (\<lambda>_. ''0.0'') 2 a_fixed @ [CHR 0x0A]"

definition b_text :: string where
  "b_text = ''{\"name\": \"b\", \"devDependencies\": {\"@styx/core\": \"workspace:*\", \"jest\": \"^29\"}}''"

definition b_data :: "unit json" where
  "b_data = JDict [(''name'', JStr ''b''), (''devDependencies'',
              JDict [(''@styx/core'', JStr ''workspace:*''), (''jest'', JStr ''^29'')])]"

definition c_text :: string where
  "c_text = ''{\"version\": \"1.0.0\", \"peerDependencies\": {\"@styx/sdk\": {\"range\": 1}}}''"

definition c_data :: "unit json" where
  "c_data = JDict [(''version'', JStr ''1.0.0''), (''peerDependencies'',
              JDict [(''@styx/sdk'', JDict [(''range'', JInt 1)])])]"

definition e_text :: string where
  "e_text = ''{\"dependencies\": \"@styx/core\"}''"

definition e_data :: "unit json" where
  "e_data = JDict [(''dependencies'', JStr ''@styx/core'')]"

definition bad_text :: string where
  "bad_text = ''{\"dependencies\": ''"

definition ex_lib :: "unit pylib" where
  "ex_lib = \<lparr>json_load = (\<lambda>s.
       if s = a_text then Inr a_data
       else if s = a_fixed_text then Inr a_fixed
       else if s = b_text then Inr b_data
       else if s = c_text then Inr c_data
       else if s = e_text then Inr e_data
       else Inl JSONDecodeError),
     float_repr = (\<lambda>_. ''0.0'')\<rparr>"

definition ex_world :: "(string \<times> string) list \<Rightarrow> unit world" where
  "ex_world fs = \<lparr>contents = map_of fs, stdout = [], writes = []\<rparr>"

definition a_path :: string where
  "a_path = ''./packages/a/package.json''"

definition a_world :: "unit world" where
  "a_world = ex_world [(a_path, a_text)]"

definition a_world_after :: "unit world" where
  "a_world_after = \<lparr>contents = [a_path \<mapsto> a_fixed_text],
     stdout = [Updating ''@styx/core'' a_path (JStr ''^1.0.0'')], writes = [a_path]\<rparr>"

lemmas ex_defs = a_path_def a_world_def a_world_after_def ex_world_def ex_lib_def
  a_text_def a_data_def a_fixed_def a_fixed_text_def b_text_def b_data_def
  c_text_def c_data_def e_text_def e_data_def bad_text_def

definition b_path :: string where
  "b_path = ''./package.json''"

definition c_path :: string where
  "c_path = ''./packages/c/package.json''"

definition e_path :: string where
  "e_path = ''./packages/e/package.json''"

definition bad_path :: string where
  "bad_path = ''./packages/bad/package.json''"

definition nm_path :: string where
  "nm_path = ''./packages/a/node_modules/@styx/core/package.json''"

definition old_path :: string where
  "old_path = ''./node_modules_old/package.json''"

definition bad_world :: "unit world" where
  "bad_world = ex_world [(bad_path, bad_text), (a_path, a_text)]"

text \<open>
  A tree with a manifest at the root, two packages, an installed copy of a package
  under \<^verbatim>\<open>node_modules\<close>, and a directory whose name only contains that word.
\<close>

definition ex_tree :: dir_tree where
  "ex_tree =
     Dir [''package.json'', ''README.md'']
       [(''packages'',
           Dir []
             [(''a'', Dir [''package.json'']
                 [(''node_modules'', Dir []
                     [(''@styx'', Dir [] [(''core'', Dir [''package.json''] [])])])]),
              (''bad'', Dir [''package.json''] [])]),
        (''node_modules_old'', Dir [''package.json''] [])]"

definition tree_world :: "unit world" where
  "tree_world = ex_world [(b_path, b_text), (a_path, a_text), (bad_path, bad_text),
                          (nm_path, a_text), (old_path, a_text)]"

lemmas ex_paths = b_path_def c_path_def e_path_def bad_path_def nm_path_def old_path_def
  bad_world_def ex_tree_def tree_world_def

definition b_world :: "unit world" where
  "b_world = ex_world [(b_path, b_text)]"

definition c_world :: "unit world" where
  "c_world = ex_world [(c_path, c_text)]"

definition c_fixed :: "unit json" where
  "c_fixed = JDict [(''version'', JStr ''1.0.0''), (''peerDependencies'',
               JDict [(''@styx/sdk'', JStr ''workspace:*'')])]"

definition e_world :: "unit world" where
  "e_world = ex_world [(e_path, e_text), (a_path, a_text)]"

lemmas ex_worlds = b_world_def c_world_def c_fixed_def e_world_def

text \<open>
  A text on which the parser of the standard library does not raise
  \<^verbatim>\<open>JSONDecodeError\<close> but \<^verbatim>\<open>RecursionError\<close>: a hundred thousand opening
  brackets. The library of this example raises it there and is \<open>ex_lib\<close> elsewhere.
\<close>

definition deep_text :: string where
  "deep_text = replicate 100000 CHR ''[''"

definition deep_path :: string where
  "deep_path = ''./packages/deep/package.json''"

definition deep_lib :: "unit pylib" where
  "deep_lib = \<lparr>json_load = (\<lambda>s. if s = deep_text then Inl RecursionError
                                 else json_load ex_lib s),
               float_repr = float_repr ex_lib\<rparr>"

definition deep_world :: "unit world" where
  "deep_world = ex_world [(deep_path, deep_text), (a_path, a_text)]"

text \<open>
  A file on which a call changes nothing but the output: it exists, and either the
  parser raises \<^verbatim>\<open>JSONDecodeError\<close> on it or the scan of its value returns
  without setting \<^verbatim>\<open>changed\<close>.
\<close>

definition settled :: "'f pylib \<Rightarrow> string \<Rightarrow> string option \<Rightarrow> bool" where
  "settled L file_path content =
     (case content of
        None \<Rightarrow> False
      | Some body \<Rightarrow>
          (case json_load L body of
             Inl e \<Rightarrow> e = JSONDecodeError
           | Inr data \<Rightarrow>
               (case fix_dep_types file_path dep_types data False [] of
                  Inl el \<Rightarrow> False
                | Inr (data', changed, log) \<Rightarrow> \<not> changed)))"

definition tree_world_after :: "unit world" where
  "tree_world_after =
     tree_world\<lparr>contents := (contents tree_world)(a_path \<mapsto> a_fixed_text),
                stdout := [Updating ''@styx/core'' a_path (JStr ''^1.0.0''),
                           Error_decoding bad_path],
                writes := [a_path]\<rparr>"

section \<open>Lemmas about the scan\<close>

lemma fix_entries_eq:
  "fix_entries fp items m ch log =
     (fold rewrite_entry items m, ch \<or> list_ex internal_stale items,
      log @ map (\<lambda>e. Updating (fst e) fp (snd e)) (filter internal_stale items))"
  by (induction items arbitrary: m ch log) (auto simp: rewrite_entry_def internal_stale_def)

lemma map_of_fold_rewrite:
  "map_of (fold rewrite_entry items m) k =
     (if \<exists>v. (k, v) \<in> set items \<and> internal_stale (k, v) then Some (JStr ''workspace:*'') else map_of m k)"
  by (induction items arbitrary: m) (auto simp: rewrite_entry_def update_conv')

lemma keys_fold_rewrite:
  "fst ` set items \<subseteq> fst ` set m \<Longrightarrow> map fst (fold rewrite_entry items m) = map fst m"
proof (induction items arbitrary: m)
  case Nil
  then show ?case by simp
next
  case (Cons e items)
  have k: "map fst (rewrite_entry e m) = map fst m"
    using Cons.prems by (auto simp: rewrite_entry_def update_keys)
  then have "fst ` set items \<subseteq> fst ` set (rewrite_entry e m)"
    using Cons.prems by (metis (no_types, lifting) insert_subset list.set_map list.simps(15) image_insert)
  from Cons.IH[OF this] k show ?case by simp
qed

lemma fold_rewrite_id:
  "\<not> list_ex internal_stale items \<Longrightarrow> fold rewrite_entry items m = m"
  by (induction items arbitrary: m) (auto simp: rewrite_entry_def)

lemma no_stale_after:
  assumes "distinct (map fst m)"
  shows "\<not> list_ex internal_stale (fold rewrite_entry m m)"
proof -
  have d: "distinct (map fst (fold rewrite_entry m m))"
    using assms by (simp add: keys_fold_rewrite)
  { fix k v assume in_set: "(k, v) \<in> set (fold rewrite_entry m m)" and st: "internal_stale (k, v)"
    from d in_set have mo: "map_of (fold rewrite_entry m m) k = Some v" by simp
    have False
    proof (cases "\<exists>v'. (k, v') \<in> set m \<and> internal_stale (k, v')")
      case True
      with mo have "v = JStr ''workspace:*''" by (simp add: map_of_fold_rewrite)
      with st show False by (simp add: internal_stale_def)
    next
      case False
      with mo have "map_of m k = Some v" by (simp add: map_of_fold_rewrite)
      then have "(k, v) \<in> set m" by (rule map_of_SomeD)
      with False st show False by blast
    qed }
  then show ?thesis by (auto simp: list_ex_iff)
qed


lemma fix_dep_types_Cons_dict:
  "fix_dep_types fp (t # ts) (JDict d) ch log =
     (case map_of d t of
        None \<Rightarrow> fix_dep_types fp ts (JDict d) ch log
      | Some v \<Rightarrow>
          (case v of
             JDict m \<Rightarrow>
               fix_dep_types fp ts (JDict (AList.update t (JDict (fold rewrite_entry m m)) d))
                 (ch \<or> list_ex internal_stale m)
                 (log @ map (\<lambda>e. Updating (fst e) fp (snd e)) (filter internal_stale m))
           | _ \<Rightarrow> Inl (AttributeError, log)))"
proof (cases "map_of d t")
  case None
  then have "t \<notin> fst ` set d" by (simp add: map_of_eq_None_iff)
  with None show ?thesis by simp
next
  case (Some v)
  then have "t \<in> fst ` set d" by (metis map_of_eq_None_iff option.distinct(1))
  with Some show ?thesis by (cases v) (simp_all add: fix_entries_eq)
qed

declare fix_dep_types.simps(2) [simp del]

lemma stale_in_Cons:
  "stale_in (t # ts) d = ((\<exists>m. map_of d t = Some (JDict m) \<and> list_ex internal_stale m) \<or> stale_in ts d)"
  by (auto simp: stale_in_def)

lemma stale_in_update:
  "t \<notin> set ts \<Longrightarrow> stale_in ts (AList.update t v d) = stale_in ts d"
  by (auto simp: stale_in_def update_conv')

lemma fix_dep_types_shape:
  "fix_dep_types fp ts (JDict d) ch log = Inr (data', ch', log') \<Longrightarrow>
   \<exists>d'. data' = JDict d' \<and> map fst d' = map fst d"
proof (induction ts arbitrary: d ch log)
  case Nil
  then show ?case by auto
next
  case (Cons t ts)
  show ?case
  proof (cases "map_of d t")
    case None
    with Cons.prems have "fix_dep_types fp ts (JDict d) ch log = Inr (data', ch', log')"
      by (simp add: fix_dep_types_Cons_dict)
    then show ?thesis by (rule Cons.IH)
  next
    case (Some v)
    then have k: "t \<in> fst ` set d" by (metis map_of_eq_None_iff option.distinct(1))
    from Some Cons.prems obtain m where v: "v = JDict m"
      by (cases v) (simp_all add: fix_dep_types_Cons_dict)
    let ?d2 = "AList.update t (JDict (fold rewrite_entry m m)) d"
    from Some v Cons.prems have "fix_dep_types fp ts (JDict ?d2)
        (ch \<or> list_ex internal_stale m)
        (log @ map (\<lambda>e. Updating (fst e) fp (snd e)) (filter internal_stale m)) = Inr (data', ch', log')"
      by (simp add: fix_dep_types_Cons_dict)
    from Cons.IH[OF this] obtain d' where "data' = JDict d'" "map fst d' = map fst ?d2" by blast
    with k show ?thesis by (simp add: update_keys)
  qed
qed

lemma fix_dep_types_frame:
  "fix_dep_types fp ts (JDict d) ch log = Inr (JDict d', ch', log') \<Longrightarrow> k \<notin> set ts \<Longrightarrow>
   map_of d' k = map_of d k"
proof (induction ts arbitrary: d ch log)
  case Nil
  then show ?case by simp
next
  case (Cons t ts)
  from Cons.prems(2) have kt: "k \<noteq> t" and kts: "k \<notin> set ts" by auto
  show ?case
  proof (cases "map_of d t")
    case None
    with Cons.prems have "fix_dep_types fp ts (JDict d) ch log = Inr (JDict d', ch', log')"
      by (simp add: fix_dep_types_Cons_dict)
    from Cons.IH[OF this kts] show ?thesis .
  next
    case (Some v)
    from Some Cons.prems obtain m where v: "v = JDict m"
      by (cases v) (simp_all add: fix_dep_types_Cons_dict)
    let ?d2 = "AList.update t (JDict (fold rewrite_entry m m)) d"
    from Some v Cons.prems have "fix_dep_types fp ts (JDict ?d2)
        (ch \<or> list_ex internal_stale m)
        (log @ map (\<lambda>e. Updating (fst e) fp (snd e)) (filter internal_stale m)) = Inr (JDict d', ch', log')"
      by (simp add: fix_dep_types_Cons_dict)
    from Cons.IH[OF this kts] have "map_of d' k = map_of ?d2 k" .
    with kt show ?thesis by (simp add: update_conv')
  qed
qed

lemma fix_dep_types_field:
  "fix_dep_types fp ts (JDict d) ch log = Inr (JDict d', ch', log') \<Longrightarrow> distinct ts \<Longrightarrow>
   t \<in> set ts \<Longrightarrow> map_of d t = Some v \<Longrightarrow>
   \<exists>m. v = JDict m \<and> map_of d' t = Some (JDict (fold rewrite_entry m m))"
proof (induction ts arbitrary: d ch log)
  case Nil
  then show ?case by simp
next
  case (Cons u ts)
  from Cons.prems(2) have u: "u \<notin> set ts" and dts: "distinct ts" by auto
  show ?case
  proof (cases "map_of d u")
    case None
    with Cons.prems(4) have ut: "t \<noteq> u" by auto
    with Cons.prems(3) have tts: "t \<in> set ts" by simp
    from None Cons.prems(1) have "fix_dep_types fp ts (JDict d) ch log = Inr (JDict d', ch', log')"
      by (simp add: fix_dep_types_Cons_dict)
    from Cons.IH[OF this dts tts Cons.prems(4)] show ?thesis .
  next
    case (Some x)
    from Some Cons.prems(1) obtain m where x: "x = JDict m"
      by (cases x) (simp_all add: fix_dep_types_Cons_dict)
    let ?d2 = "AList.update u (JDict (fold rewrite_entry m m)) d"
    from Some x Cons.prems(1) have run: "fix_dep_types fp ts (JDict ?d2)
        (ch \<or> list_ex internal_stale m)
        (log @ map (\<lambda>e. Updating (fst e) fp (snd e)) (filter internal_stale m)) = Inr (JDict d', ch', log')"
      by (simp add: fix_dep_types_Cons_dict)
    show ?thesis
    proof (cases "t = u")
      case True
      from fix_dep_types_frame[OF run u] have "map_of d' u = Some (JDict (fold rewrite_entry m m))"
        by (simp add: update_conv')
      with True Some x Cons.prems(4) show ?thesis by auto
    next
      case False
      with Cons.prems(3) have tts: "t \<in> set ts" by simp
      from False Cons.prems(4) have "map_of ?d2 t = Some v" by (simp add: update_conv')
      from Cons.IH[OF run dts tts this] show ?thesis .
    qed
  qed
qed

lemma fix_dep_types_changed:
  "fix_dep_types fp ts (JDict d) ch log = Inr (data', ch', log') \<Longrightarrow> distinct ts \<Longrightarrow>
   ch' = (ch \<or> stale_in ts d) \<and>
   (\<exists>extra. log' = log @ extra \<and> (extra = []) = (\<not> stale_in ts d))"
proof (induction ts arbitrary: d ch log)
  case Nil
  then show ?case by (simp add: stale_in_def)
next
  case (Cons u ts)
  from Cons.prems(2) have u: "u \<notin> set ts" and dts: "distinct ts" by auto
  show ?case
  proof (cases "map_of d u")
    case None
    from None Cons.prems(1) have "fix_dep_types fp ts (JDict d) ch log = Inr (data', ch', log')"
      by (simp add: fix_dep_types_Cons_dict)
    from Cons.IH[OF this dts] None show ?thesis by (simp add: stale_in_Cons)
  next
    case (Some x)
    from Some Cons.prems(1) obtain m where x: "x = JDict m"
      by (cases x) (simp_all add: fix_dep_types_Cons_dict)
    let ?d2 = "AList.update u (JDict (fold rewrite_entry m m)) d"
    let ?msgs = "map (\<lambda>e. Updating (fst e) fp (snd e)) (filter internal_stale m)"
    from Some x Cons.prems(1) have run: "fix_dep_types fp ts (JDict ?d2)
        (ch \<or> list_ex internal_stale m) (log @ ?msgs) = Inr (data', ch', log')"
      by (simp add: fix_dep_types_Cons_dict)
    from Cons.IH[OF run dts] obtain extra where
      c: "ch' = ((ch \<or> list_ex internal_stale m) \<or> stale_in ts ?d2)" and
      l: "log' = (log @ ?msgs) @ extra" and e: "(extra = []) = (\<not> stale_in ts ?d2)" by blast
    have s: "stale_in ts ?d2 = stale_in ts d" using u by (rule stale_in_update)
    have m: "(?msgs = []) = (\<not> list_ex internal_stale m)"
      by (simp add: filter_empty_conv list_ex_iff)
    have "log' = log @ (?msgs @ extra)" using l by simp
    moreover have "(?msgs @ extra = []) = (\<not> stale_in (u # ts) d)"
      using m e s Some x by (simp add: stale_in_Cons)
    moreover have "ch' = (ch \<or> stale_in (u # ts) d)"
      using c s Some x by (auto simp: stale_in_Cons)
    ultimately show ?thesis by blast
  qed
qed

lemma fix_dep_types_not_dict:
  "fix_dep_types fp ts data ch log = Inr r \<Longrightarrow> \<forall>d. data \<noteq> JDict d \<Longrightarrow> r = (data, ch, log)"
  by (induction ts arbitrary: ch log)
     (cases data; auto simp: fix_dep_types.simps(2) split: sum.splits bool.splits)+


lemma fix_dep_types_quiet:
  "(\<forall>t\<in>set ts. \<forall>v. map_of d t = Some v \<longrightarrow> (\<exists>m. v = JDict m \<and> \<not> list_ex internal_stale m)) \<Longrightarrow>
   fix_dep_types fp ts (JDict d) ch log = Inr (JDict d, ch, log)"
proof (induction ts arbitrary: ch log)
  case Nil
  then show ?case by simp
next
  case (Cons u ts)
  then have IH: "\<And>ch log. fix_dep_types fp ts (JDict d) ch log = Inr (JDict d, ch, log)" by simp
  show ?case
  proof (cases "map_of d u")
    case None
    then show ?thesis by (simp add: fix_dep_types_Cons_dict IH)
  next
    case (Some v)
    with Cons.prems obtain m where v: "v = JDict m" and ns: "\<not> list_ex internal_stale m" by auto
    from ns have "fold rewrite_entry m m = m" by (rule fold_rewrite_id)
    moreover from Some v have "AList.update u (JDict m) d = d" by (simp add: update_triv)
    moreover from ns have "filter internal_stale m = []" by (simp add: filter_empty_conv list_ex_iff)
    ultimately show ?thesis using Some v ns by (simp add: fix_dep_types_Cons_dict IH)
  qed
qed


lemma fix_dep_types_attribute_error:
  "t \<in> set ts \<Longrightarrow> map_of d t = Some v \<Longrightarrow> \<forall>m. v \<noteq> JDict m \<Longrightarrow>
   \<exists>log'. fix_dep_types fp ts (JDict d) ch log = Inl (AttributeError, log')"
proof (induction ts arbitrary: d ch log)
  case Nil
  then show ?case by simp
next
  case (Cons u ts)
  show ?case
  proof (cases "map_of d u")
    case None
    with Cons.prems have "t \<in> set ts" by auto
    from Cons.IH[OF this Cons.prems(2,3)] None show ?thesis by (simp add: fix_dep_types_Cons_dict)
  next
    case (Some x)
    show ?thesis
    proof (cases "\<exists>m. x = JDict m")
      case False
      with Some show ?thesis by (cases x) (simp_all add: fix_dep_types_Cons_dict)
    next
      case True
      then obtain m where x: "x = JDict m" by blast
      with Some Cons.prems have tu: "t \<noteq> u" by auto
      with Cons.prems have tts: "t \<in> set ts" by simp
      let ?d2 = "AList.update u (JDict (fold rewrite_entry m m)) d"
      from tu Cons.prems(2) have "map_of ?d2 t = Some v" by (simp add: update_conv')
      from Cons.IH[OF tts this Cons.prems(3)] Some x show ?thesis
        by (simp add: fix_dep_types_Cons_dict)
    qed
  qed
qed

lemma has_stale_entry_dict: "has_stale_entry (JDict d) = stale_in dep_types d"
  by (auto simp: stale_in_def split: option.splits json.splits)

lemma fix_dependencies_parsed:
  assumes "contents w p = Some text" and "json_load L text = Inr data"
  shows "fix_dependencies L p w =
     (case fix_dep_types p dep_types data False [] of
        Inl (e, log) \<Rightarrow> Inl (e, w\<lparr>stdout := stdout w @ log\<rparr>)
      | Inr (data', changed, log) \<Rightarrow>
          (if changed
           then Inr (w\<lparr>contents := (contents w)
                         (p \<mapsto> json_dump (float_repr L) 2 data' @ [CHR 0x0A]),
                       stdout := stdout w @ log,
                       writes := writes w @ [p]\<rparr>)
           else Inr (w\<lparr>stdout := stdout w @ log\<rparr>)))"
  using assms by (simp add: fix_dependencies_def)


lemma scan_result:
  assumes "contents w p = Some text" and "json_load L text = Inr data"
    and "fix_dependencies L p w = Inr w'"
  shows "\<exists>data' changed log.
    fix_dep_types p dep_types data False [] = Inr (data', changed, log) \<and>
    w' = (if changed
          then w\<lparr>contents := (contents w)(p \<mapsto> json_dump (float_repr L) 2 data' @ [CHR 0x0A]),
                 stdout := stdout w @ log, writes := writes w @ [p]\<rparr>
          else w\<lparr>stdout := stdout w @ log\<rparr>)"
proof (cases "fix_dep_types p dep_types data False []")
  case (Inl el)
  with assms show ?thesis by (simp add: fix_dependencies_parsed split: prod.splits)
next
  case (Inr r)
  obtain data' changed log where r: "r = (data', changed, log)" by (cases r)
  with Inr assms show ?thesis
    by (cases changed) (auto simp add: fix_dependencies_parsed)
qed




lemma find_package_files_eq:
  "find_package_files walk acc =
     acc @ map (\<lambda>e. os_path_join (fst e) ''package.json'')
             (filter (\<lambda>e. \<not> str_contains ''node_modules'' (fst e)
                           \<and> ''package.json'' \<in> set (snd (snd e))) walk)"
  by (induction walk acc rule: find_package_files.induct) auto

lemma walk_path_Nil [simp]: "walk_path root [] = root"
  by (simp add: walk_path_def)

lemma walk_path_Cons [simp]: "walk_path root (n # ns) = walk_path (os_path_join root n) ns"
  by (simp add: walk_path_def)

lemma os_walk_iff:
  "(r, ds, fs) \<in> set (os_walk root t) \<longleftrightarrow>
     (\<exists>ns subs. Dir fs subs \<in> set (dirs_at t ns) \<and> r = walk_path root ns \<and> ds = map fst subs)"
proof (induction root t arbitrary: r ds fs rule: os_walk.induct)
  case (1 root nondirs subs)
  have IH: "\<And>e r ds fs. e \<in> set subs \<Longrightarrow>
      (r, ds, fs) \<in> set (os_walk (os_path_join root (fst e)) (snd e)) \<longleftrightarrow>
      (\<exists>ns subs'. Dir fs subs' \<in> set (dirs_at (snd e) ns)
          \<and> r = walk_path (os_path_join root (fst e)) ns \<and> ds = map fst subs')"
    using "1.IH" by blast
  show ?case (is "?L \<longleftrightarrow> ?R")
  proof
    assume ?L
    then consider (here) "(r, ds, fs) = (root, map fst subs, nondirs)"
      | (below) e where "e \<in> set subs" "(r, ds, fs) \<in> set (os_walk (os_path_join root (fst e)) (snd e))"
      by auto
    then show ?R
    proof cases
      case here
      then have "Dir fs subs \<in> set (dirs_at (Dir nondirs subs) [])" "r = walk_path root []"
        "ds = map fst subs" by simp_all
      then show ?thesis by blast
    next
      case below
      with IH obtain ns subs' where a: "Dir fs subs' \<in> set (dirs_at (snd e) ns)"
        "r = walk_path (os_path_join root (fst e)) ns" "ds = map fst subs'" by blast
      from a(1) below(1) have "Dir fs subs' \<in> set (dirs_at (Dir nondirs subs) (fst e # ns))"
        by auto
      moreover from a(2) have "r = walk_path root (fst e # ns)" by simp
      ultimately show ?thesis using a(3) by blast
    qed
  next
    assume ?R
    then obtain ns subs' where a: "Dir fs subs' \<in> set (dirs_at (Dir nondirs subs) ns)"
      "r = walk_path root ns" "ds = map fst subs'" by blast
    show ?L
    proof (cases ns)
      case Nil
      with a show ?thesis by simp
    next
      case (Cons n ns')
      with a(1) obtain e where e: "e \<in> set subs" "fst e = n" "Dir fs subs' \<in> set (dirs_at (snd e) ns')"
        by (auto split: if_splits)
      from a(2) Cons e(2) have "r = walk_path (os_path_join root (fst e)) ns'" by simp
      with e(1,3) a(3) IH have "(r, ds, fs) \<in> set (os_walk (os_path_join root (fst e)) (snd e))"
        by blast
      with e(1) show ?thesis by auto
    qed
  qed
qed

lemma startswith_append: "startswith (p @ s) p"
  by (simp add: startswith_def)

lemma str_contains_append: "str_contains sub (a @ sub @ b)"
proof (induction a)
  case Nil
  show ?case by (cases "sub @ b") (simp_all add: startswith_def, metis append_eq_conv_conj)
next
  case (Cons c a)
  then show ?case by simp
qed

lemma split_path_nonempty: "split_path s \<noteq> []"
  by (induction s) (auto split: list.splits)

lemma hd_split_path_prefix: "\<exists>b. s = hd (split_path s) @ b"
proof (induction s)
  case Nil
  show ?case by simp
next
  case (Cons c cs)
  then obtain b where b: "cs = hd (split_path cs) @ b" by blast
  obtain h t where ht: "split_path cs = h # t" using split_path_nonempty[of cs]
    by (cases "split_path cs") auto
  with b have "c # cs = (c # h) @ b" by simp
  with ht show ?case by (cases "c = CHR ''/''") auto
qed

lemma segment_is_infix: "x \<in> set (split_path s) \<Longrightarrow> \<exists>a b. s = a @ x @ b"
proof (induction s arbitrary: x)
  case Nil
  then show ?case by simp
next
  case (Cons c cs)
  show ?case
  proof (cases "c = CHR ''/''")
    case True
    with Cons.prems have "x = [] \<or> x \<in> set (split_path cs)" by simp
    then show ?thesis
    proof
      assume "x = []"
      then have "c # cs = [] @ x @ (c # cs)" by simp
      then show ?thesis by blast
    next
      assume "x \<in> set (split_path cs)"
      from Cons.IH[OF this] obtain a b where "cs = a @ x @ b" by blast
      then have "c # cs = (c # a) @ x @ b" by simp
      then show ?thesis by blast
    qed
  next
    case False
    obtain h t where ht: "split_path cs = h # t" using split_path_nonempty[of cs]
      by (cases "split_path cs") auto
    with False Cons.prems have "x = c # h \<or> x \<in> set t" by simp
    then show ?thesis
    proof
      assume x: "x = c # h"
      from ht hd_split_path_prefix[of cs] obtain b where "cs = h @ b" by auto
      with x have "c # cs = [] @ x @ b" by simp
      then show ?thesis by blast
    next
      assume "x \<in> set t"
      with ht have "x \<in> set (split_path cs)" by simp
      from Cons.IH[OF this] obtain a b where "cs = a @ x @ b" by blast
      then have "c # cs = (c # a) @ x @ b" by simp
      then show ?thesis by blast
    qed
  qed
qed


lemma split_path_append_slash:
  "split_path (a @ CHR ''/'' # b) = split_path a @ split_path b"
proof (induction a)
  case Nil
  show ?case by simp
next
  case (Cons c a)
  obtain h t where ht: "split_path a = h # t" using split_path_nonempty[of a]
    by (cases "split_path a") auto
  with Cons show ?case by (cases "c = CHR ''/''") (auto simp: split_path_nonempty)
qed

lemma split_path_package_json: "split_path ''package.json'' = [''package.json'']"
  by simp

lemma segment_of_joined:
  assumes "''node_modules'' \<in> set (split_path (os_path_join root ''package.json''))"
  shows "str_contains ''node_modules'' root"
proof -
  have ns: "\<not> startswith ''package.json'' ''/''" by (simp add: startswith_def)
  have "\<exists>r. ''node_modules'' \<in> set (split_path r) \<and> (\<exists>b. root = r @ b)"
  proof (cases "root = [] \<or> last root = CHR ''/''")
    case False
    then have "os_path_join root ''package.json'' = root @ CHR ''/'' # ''package.json''"
      using ns by (simp add: os_path_join_def)
    with assms have "''node_modules'' \<in> set (split_path root @ split_path ''package.json'')"
      by (simp only: split_path_append_slash)
    then have "''node_modules'' \<in> set (split_path root)" by simp
    moreover have "root = root @ []" by simp
    ultimately show ?thesis by blast
  next
    case True
    show ?thesis
    proof (cases "root = []")
      case True
      with assms ns show ?thesis by (simp add: os_path_join_def)
    next
      case False
      with True have l: "last root = CHR ''/''" by simp
      from False have "root = butlast root @ [last root]" by simp
      with l have r: "root = butlast root @ ''/''" by simp
      from l False ns have "os_path_join root ''package.json'' = root @ ''package.json''"
        by (simp add: os_path_join_def)
      with r have "os_path_join root ''package.json'' = butlast root @ CHR ''/'' # ''package.json''"
        by (metis append.assoc append_Cons append_Nil)
      with assms have "''node_modules'' \<in> set (split_path (butlast root) @ split_path ''package.json'')"
        by (simp only: split_path_append_slash)
      then have "''node_modules'' \<in> set (split_path (butlast root))" by simp
      with r show ?thesis by blast
    qed
  qed
  then obtain r b where "''node_modules'' \<in> set (split_path r)" "root = r @ b" by blast
  moreover from segment_is_infix[OF this(1)] obtain a c where "r = a @ ''node_modules'' @ c" by blast
  ultimately have "root = a @ ''node_modules'' @ (c @ b)" by simp
  then show ?thesis by (metis str_contains_append)
qed


lemma fix_dependencies_frame:
  "(\<forall>p. p \<noteq> q \<longrightarrow> contents (final_world (fix_dependencies L q w)) p = contents w p) \<and>
   (writes (final_world (fix_dependencies L q w)) = writes w \<or>
    writes (final_world (fix_dependencies L q w)) = writes w @ [q])"
proof (cases "contents w q")
  case None
  then show ?thesis by (simp add: fix_dependencies_def)
next
  case (Some cont)
  show ?thesis
  proof (cases "json_load L cont")
    case (Inl e)
    with Some show ?thesis by (simp add: fix_dependencies_def)
  next
    case (Inr data)
    show ?thesis
    proof (cases "fix_dep_types q dep_types data False []")
      case (Inl el)
      with Some Inr show ?thesis by (simp add: fix_dependencies_parsed split: prod.splits)
    next
      case r: (Inr res)
      obtain data' changed log where "res = (data', changed, log)" by (cases res)
      with r Some Inr show ?thesis by (simp add: fix_dependencies_parsed)
    qed
  qed
qed

lemma process_files_frame:
  "p \<notin> set ps \<Longrightarrow>
   contents (final_world (process_files L ps w)) p = contents w p \<and>
   (\<exists>ws. writes (final_world (process_files L ps w)) = writes w @ ws \<and> set ws \<subseteq> set ps)"
proof (induction ps arbitrary: w)
  case Nil
  then show ?case by simp
next
  case (Cons q ps)
  then have pq: "p \<noteq> q" and pps: "p \<notin> set ps" by auto
  let ?r = "fix_dependencies L q w"
  from fix_dependencies_frame[of q L w] pq have
    c: "contents (final_world ?r) p = contents w p" and
    wr: "\<exists>ws. writes (final_world ?r) = writes w @ ws \<and> set ws \<subseteq> {q}"
    by auto
  show ?case
  proof (cases ?r)
    case (Inl ew)
    then have "process_files L (q # ps) w = ?r" by simp
    with c wr show ?thesis by auto
  next
    case (Inr w1)
    then have e: "process_files L (q # ps) w = process_files L ps w1" by simp
    from Inr c wr have c1: "contents w1 p = contents w p"
      and "\<exists>ws. writes w1 = writes w @ ws \<and> set ws \<subseteq> {q}" by auto
    then obtain ws1 where ws1: "writes w1 = writes w @ ws1" "set ws1 \<subseteq> {q}" by blast
    from Cons.IH[OF pps, of w1] obtain ws2 where
      c2: "contents (final_world (process_files L ps w1)) p = contents w1 p" and
      ws2: "writes (final_world (process_files L ps w1)) = writes w1 @ ws2" "set ws2 \<subseteq> set ps"
      by blast
    from ws1 ws2 have "writes (final_world (process_files L ps w1)) = writes w @ (ws1 @ ws2)"
      "set (ws1 @ ws2) \<subseteq> set (q # ps)" by auto
    with e c1 c2 show ?thesis by auto
  qed
qed

lemma changed_iff_stale:
  assumes "fix_dep_types fp dep_types data False [] = Inr (data', changed, log)"
  shows "changed = has_stale_entry data"
proof (cases "\<exists>d. data = JDict d")
  case True
  then obtain d where d: "data = JDict d" by blast
  have dist: "distinct dep_types" by simp
  from fix_dep_types_changed[OF assms[unfolded d] dist] show ?thesis
    by (simp add: d has_stale_entry_dict del: has_stale_entry.simps)
next
  case False
  with fix_dep_types_not_dict[OF assms] have "changed = False" by auto
  moreover from False have "\<not> has_stale_entry data" by (cases data) simp_all
  ultimately show ?thesis by simp
qed

lemma wf_dep_dict:
  assumes "wf_json (JDict d)" and "map_of d t = Some (JDict m)"
  shows "distinct (map fst m)"
proof -
  from assms(2) have "(t, JDict m) \<in> set d" by (rule map_of_SomeD)
  moreover from assms(1) have "\<forall>kv\<in>set d. wf_json (snd kv)" by (simp add: list_all_iff)
  ultimately have "wf_json (snd (t, JDict m))" by blast
  then show ?thesis by simp
qed

lemma scan_fixpoint:
  assumes "wf_json data"
    and "fix_dep_types fp dep_types data False [] = Inr (data', changed, log)"
  shows "fix_dep_types fp' dep_types data' False [] = Inr (data', False, [])"
proof (cases "\<exists>d. data = JDict d")
  case False
  with fix_dep_types_not_dict[OF assms(2)] have e: "data' = data" by auto
  from False have nd: "\<forall>d. data \<noteq> JDict d" by blast
  have "\<exists>r. fix_dep_types fp' dep_types data False [] = Inr r"
    using assms(2) nd
    by (cases data) (auto simp: fix_dep_types.simps(2) split: sum.splits bool.splits)
  then obtain r where r: "fix_dep_types fp' dep_types data False [] = Inr r" by blast
  from fix_dep_types_not_dict[OF r nd] r e show ?thesis by simp
next
  case True
  then obtain d where d: "data = JDict d" by blast
  have dist: "distinct dep_types" by simp
  note run = assms(2)[unfolded d]
  from fix_dep_types_shape[OF run] obtain d' where d': "data' = JDict d'"
    and keys: "map fst d' = map fst d" by blast
  have "\<forall>t\<in>set dep_types. \<forall>v. map_of d' t = Some v \<longrightarrow>
          (\<exists>m. v = JDict m \<and> \<not> list_ex internal_stale m)"
  proof (intro ballI allI impI)
    fix t v assume t: "t \<in> set dep_types" and v: "map_of d' t = Some v"
    from v have "t \<in> set (map fst d')" by (metis map_of_eq_None_iff option.distinct(1) set_map)
    with keys have "map_of d t \<noteq> None" by (simp add: map_of_eq_None_iff)
    then obtain v0 where v0: "map_of d t = Some v0" by blast
    from fix_dep_types_field[OF run[unfolded d'] dist t v0] obtain m0 where
      m0: "v0 = JDict m0" and f: "map_of d' t = Some (JDict (fold rewrite_entry m0 m0))" by blast
    from assms(1) d v0 m0 have "distinct (map fst m0)" by (metis wf_dep_dict)
    then have "\<not> list_ex internal_stale (fold rewrite_entry m0 m0)" by (rule no_stale_after)
    with f v show "\<exists>m. v = JDict m \<and> \<not> list_ex internal_stale m" by simp
  qed
  from fix_dep_types_quiet[OF this] d' show ?thesis by simp
qed


lemma settled_run:
  assumes "settled L p (contents w p)"
  shows "\<exists>w'. fix_dependencies L p w = Inr w' \<and> contents w' = contents w \<and> writes w' = writes w"
proof -
  from assms obtain body where b: "contents w p = Some body"
    by (cases "contents w p") (simp_all add: settled_def)
  show ?thesis
  proof (cases "json_load L body")
    case (Inl e)
    with assms b have "e = JSONDecodeError" by (simp add: settled_def)
    with Inl b show ?thesis by (simp add: fix_dependencies_def)
  next
    case (Inr data)
    with assms b obtain data' log where
      "fix_dep_types p dep_types data False [] = Inr (data', False, log)"
      by (auto simp: settled_def split: sum.splits prod.splits)
    with Inr b show ?thesis by (simp add: fix_dependencies_parsed)
  qed
qed

lemma settled_after_call:
  assumes "fix_dependencies L p w = Inr w1" and "reads_back L p (contents w p)"
  shows "settled L p (contents w1 p)"
proof -
  from assms(1) obtain body where b: "contents w p = Some body"
    by (cases "contents w p") (simp_all add: fix_dependencies_def)
  show ?thesis
  proof (cases "json_load L body")
    case (Inl e)
    with assms(1) b have e: "e = JSONDecodeError" and w1: "contents w1 = contents w"
      by (auto simp: fix_dependencies_def split: if_splits)
    with Inl b show ?thesis by (simp add: settled_def)
  next
    case (Inr data)
    from scan_result[OF b Inr assms(1)] obtain data' changed log where
      run: "fix_dep_types p dep_types data False [] = Inr (data', changed, log)" and
      w1: "w1 = (if changed
            then w\<lparr>contents := (contents w)(p \<mapsto> json_dump (float_repr L) 2 data' @ [CHR 0x0A]),
                   stdout := stdout w @ log, writes := writes w @ [p]\<rparr>
            else w\<lparr>stdout := stdout w @ log\<rparr>)"
      by blast
    show ?thesis
    proof (cases changed)
      case False
      with w1 b have "contents w1 p = Some body" by simp
      with Inr run False show ?thesis by (simp add: settled_def)
    next
      case True
      with assms(2) b Inr run have wf: "wf_json data"
        and rb: "json_load L (json_dump (float_repr L) 2 data' @ [CHR 0x0A]) = Inr data'"
        by (simp_all add: reads_back_def)
      from scan_fixpoint[OF wf run]
      have "fix_dep_types p dep_types data' False [] = Inr (data', False, [])" .
      moreover from w1 True
      have "contents w1 p = Some (json_dump (float_repr L) 2 data' @ [CHR 0x0A])" by simp
      ultimately show ?thesis using rb by (simp add: settled_def)
    qed
  qed
qed

lemma settled_imp_reads_back: "settled L p c \<Longrightarrow> reads_back L p c"
  by (auto simp: settled_def reads_back_def split: option.splits sum.splits prod.splits)

lemma other_file_untouched:
  assumes "fix_dependencies L q w = Inr w1" and "p \<noteq> q"
  shows "contents w1 p = contents w p"
  using fix_dependencies_frame[of q L w] assms by simp

lemma settled_kept:
  assumes "fix_dependencies L q w = Inr w1" and "settled L p (contents w p)"
  shows "settled L p (contents w1 p)"
proof (cases "p = q")
  case True
  from settled_run[OF assms(2)] True assms(1) have "contents w1 = contents w" by auto
  with assms(2) show ?thesis by simp
next
  case False
  from other_file_untouched[OF assms(1) False] assms(2) show ?thesis by simp
qed

lemma reads_back_kept:
  assumes "fix_dependencies L q w = Inr w1" and "reads_back L q (contents w q)"
    and "reads_back L p (contents w p)"
  shows "reads_back L p (contents w1 p)"
proof (cases "p = q")
  case True
  from settled_after_call[OF assms(1,2)] True show ?thesis
    by (simp add: settled_imp_reads_back)
next
  case False
  from other_file_untouched[OF assms(1) False] assms(3) show ?thesis by simp
qed

lemma process_files_settled_kept:
  "process_files L ps w = Inr w1 \<Longrightarrow> settled L p (contents w p) \<Longrightarrow>
   settled L p (contents w1 p)"
proof (induction ps arbitrary: w)
  case Nil
  then show ?case by simp
next
  case (Cons q ps)
  from Cons.prems(1) obtain wa where a: "fix_dependencies L q w = Inr wa"
    and r: "process_files L ps wa = Inr w1"
    by (cases "fix_dependencies L q w") simp_all
  from settled_kept[OF a Cons.prems(2)] have "settled L p (contents wa p)" .
  from Cons.IH[OF r this] show ?case .
qed

lemma process_files_settles:
  "process_files L ps w = Inr w1 \<Longrightarrow> \<forall>p\<in>set ps. reads_back L p (contents w p) \<Longrightarrow>
   \<forall>p\<in>set ps. settled L p (contents w1 p)"
proof (induction ps arbitrary: w)
  case Nil
  then show ?case by simp
next
  case (Cons q ps)
  from Cons.prems(1) obtain wa where a: "fix_dependencies L q w = Inr wa"
    and r: "process_files L ps wa = Inr w1"
    by (cases "fix_dependencies L q w") simp_all
  from Cons.prems(2) have rq: "reads_back L q (contents w q)" by simp
  have "\<forall>p\<in>set ps. reads_back L p (contents wa p)"
  proof
    fix p assume "p \<in> set ps"
    with Cons.prems(2) have "reads_back L p (contents w p)" by simp
    from reads_back_kept[OF a rq this] show "reads_back L p (contents wa p)" .
  qed
  from Cons.IH[OF r this] have rest: "\<forall>p\<in>set ps. settled L p (contents w1 p)" .
  from settled_after_call[OF a rq] have "settled L q (contents wa q)" .
  from process_files_settled_kept[OF r this] have "settled L q (contents w1 q)" .
  with rest show ?case by simp
qed

lemma process_files_quiet:
  "\<forall>p\<in>set ps. settled L p (contents w p) \<Longrightarrow>
   \<exists>w2. process_files L ps w = Inr w2 \<and> contents w2 = contents w \<and> writes w2 = writes w"
proof (induction ps arbitrary: w)
  case Nil
  then show ?case by simp
next
  case (Cons q ps)
  from Cons.prems have "settled L q (contents w q)" by simp
  from settled_run[OF this] obtain wa where a: "fix_dependencies L q w = Inr wa"
    and c: "contents wa = contents w" and wr: "writes wa = writes w" by blast
  from Cons.prems c have "\<forall>p\<in>set ps. settled L p (contents wa p)" by simp
  from Cons.IH[OF this] obtain w2 where "process_files L ps wa = Inr w2"
    "contents w2 = contents wa" "writes w2 = writes wa" by blast
  with a c wr show ?case by simp
qed

lemma settled_no_stale:
  assumes "settled L p (Some body)" and "json_load L body = Inr data"
  shows "\<not> has_stale_entry data"
proof -
  from assms obtain data' log where
    "fix_dep_types p dep_types data False [] = Inr (data', False, log)"
    by (auto simp: settled_def split: sum.splits prod.splits)
  from changed_iff_stale[OF this] show ?thesis by simp
qed

section \<open>The properties\<close>




text \<open>
  C2, as the code has it. The \<^verbatim>\<open>except\<close> clause names
  \<^verbatim>\<open>json.JSONDecodeError\<close>, so the recovery is for that exception. When
  \<^verbatim>\<open>json.load\<close> raises \<^verbatim>\<open>JSONDecodeError\<close> on a file,
  \<^verbatim>\<open>fix_dependencies\<close> returns normally: it prints the error line naming the path
  and changes nothing else, so no file content changes and nothing is opened for
  writing; the loop of \<^verbatim>\<open>main\<close> goes on with the remaining files in the world
  that differs only by that line.
\<close>

theorem parse_failure_is_local:
  assumes "contents w p = Some text" and "json_load L text = Inl JSONDecodeError"
  shows "fix_dependencies L p w = Inr (w\<lparr>stdout := stdout w @ [Error_decoding p]\<rparr>)
       \<and> contents (final_world (fix_dependencies L p w)) = contents w
       \<and> writes (final_world (fix_dependencies L p w)) = writes w
       \<and> process_files L (p # rest) w =
           process_files L rest (w\<lparr>stdout := stdout w @ [Error_decoding p]\<rparr>)"
  using assms by (simp add: fix_dependencies_def)

theorem parse_failure_is_local_witness:
  "contents bad_world bad_path = Some bad_text \<and>
   json_load ex_lib bad_text = Inl JSONDecodeError \<and>
   fix_dependencies ex_lib bad_path bad_world =
     Inr (bad_world\<lparr>stdout := stdout bad_world @ [Error_decoding bad_path]\<rparr>) \<and>
   process_files ex_lib [bad_path, a_path] bad_world =
     Inr (bad_world\<lparr>contents := (contents bad_world)(a_path \<mapsto> a_fixed_text),
            stdout := [Error_decoding bad_path, Updating ''@styx/core'' a_path (JStr ''^1.0.0'')],
            writes := [a_path]\<rparr>)"
proof -
  have h1: "contents bad_world bad_path = Some bad_text" by (simp add: ex_defs ex_paths)
  have h2: "json_load ex_lib bad_text = Inl JSONDecodeError" by (simp add: ex_defs)
  note T = parse_failure_is_local[OF h1 h2, of "[a_path]"]
  have r: "process_files ex_lib [a_path]
             (bad_world\<lparr>stdout := stdout bad_world @ [Error_decoding bad_path]\<rparr>) =
     Inr (bad_world\<lparr>contents := (contents bad_world)(a_path \<mapsto> a_fixed_text),
            stdout := [Error_decoding bad_path, Updating ''@styx/core'' a_path (JStr ''^1.0.0'')],
            writes := [a_path]\<rparr>)"
    by (simp add: fix_dependencies_def ex_defs ex_paths fix_dep_types.simps(2) startswith_def)
  from T have c1: "fix_dependencies ex_lib bad_path bad_world =
     Inr (bad_world\<lparr>stdout := stdout bad_world @ [Error_decoding bad_path]\<rparr>)"
    by (rule conjunct1)
  from T have e: "process_files ex_lib [bad_path, a_path] bad_world =
      process_files ex_lib [a_path]
        (bad_world\<lparr>stdout := stdout bad_world @ [Error_decoding bad_path]\<rparr>)"
    by (rule conjunct2[OF conjunct2[OF conjunct2]])
  from e r have c2: "process_files ex_lib [bad_path, a_path] bad_world =
     Inr (bad_world\<lparr>contents := (contents bad_world)(a_path \<mapsto> a_fixed_text),
            stdout := [Error_decoding bad_path, Updating ''@styx/core'' a_path (JStr ''^1.0.0'')],
            writes := [a_path]\<rparr>)"
    by (rule trans)
  from h1 h2 c1 c2 show ?thesis by (intro conjI)
qed

text \<open>
  C2 as the specification states it, with every failure to parse recovered, fails: on
  a text where the parser raises another exception than \<^verbatim>\<open>JSONDecodeError\<close>
  (here \<^verbatim>\<open>RecursionError\<close>), nothing catches it, the run ends with it, and the
  valid manifest that comes next keeps its stale entry.
\<close>

theorem parse_failure_fatal_counterexample:
  "contents deep_world deep_path = Some deep_text \<and>
   json_load deep_lib deep_text = Inl RecursionError \<and>
   fix_dependencies deep_lib deep_path deep_world = Inl (RecursionError, deep_world) \<and>
   process_files deep_lib [deep_path, a_path] deep_world = Inl (RecursionError, deep_world) \<and>
   contents (final_world (process_files deep_lib [deep_path, a_path] deep_world)) a_path
     = Some a_text"
proof -
  have c: "contents deep_world deep_path = Some deep_text"
    by (simp add: deep_world_def ex_world_def)
  have l: "json_load deep_lib deep_text = Inl RecursionError"
    by (simp add: deep_lib_def)
  from c l have f: "fix_dependencies deep_lib deep_path deep_world = Inl (RecursionError, deep_world)"
    by (simp add: fix_dependencies_def)
  then have p: "process_files deep_lib [deep_path, a_path] deep_world = Inl (RecursionError, deep_world)"
    by simp
  have a: "contents deep_world a_path = Some a_text"
    by (simp add: deep_world_def ex_world_def deep_path_def a_path_def)
  with p have a': "contents (final_world (process_files deep_lib [deep_path, a_path] deep_world)) a_path
     = Some a_text" by simp
  from c l f p a' show ?thesis by (intro conjI)
qed

text \<open>
  C4. When a file that parses as a JSON object is rewritten, the object dumped into it
  has the keys of the parsed object in the same order, the same value under every key
  other than the three dependency fields, and, in each dependency dict, the same
  packages in the same order with the specifier of every package whose name does not
  start with \<^verbatim>\<open>@styx/\<close> unchanged.
\<close>

theorem others_pass_through:
  assumes "contents w p = Some text" and "json_load L text = Inr (JDict d)"
    and "fix_dependencies L p w = Inr w'" and "writes w' \<noteq> writes w"
  shows "\<exists>d'. contents w' p = Some (json_dump (float_repr L) 2 (JDict d') @ [CHR 0x0A])
            \<and> map fst d' = map fst d
            \<and> (\<forall>k. k \<notin> set dep_types \<longrightarrow> map_of d' k = map_of d k)
            \<and> (\<forall>t\<in>set dep_types. \<forall>m. map_of d t = Some (JDict m) \<longrightarrow>
                  (\<exists>m'. map_of d' t = Some (JDict m') \<and> map fst m' = map fst m \<and>
                     (\<forall>pkg. \<not> startswith pkg ''@styx/'' \<longrightarrow> map_of m' pkg = map_of m pkg)))"
proof -
  from scan_result[OF assms(1-3)] obtain data' changed log where
    run: "fix_dep_types p dep_types (JDict d) False [] = Inr (data', changed, log)" and
    w': "w' = (if changed
          then w\<lparr>contents := (contents w)(p \<mapsto> json_dump (float_repr L) 2 data' @ [CHR 0x0A]),
                 stdout := stdout w @ log, writes := writes w @ [p]\<rparr>
          else w\<lparr>stdout := stdout w @ log\<rparr>)"
    by blast
  from w' assms(4) have changed by (cases changed) simp_all
  from fix_dep_types_shape[OF run] obtain d' where d': "data' = JDict d'"
    and keys: "map fst d' = map fst d" by blast
  have dist: "distinct dep_types" by simp
  note run' = run[unfolded d']
  have c: "contents w' p = Some (json_dump (float_repr L) 2 (JDict d') @ [CHR 0x0A])"
    using w' \<open>changed\<close> d' by simp
  have frame: "\<forall>k. k \<notin> set dep_types \<longrightarrow> map_of d' k = map_of d k"
    using fix_dep_types_frame[OF run'] by blast
  have fields: "\<exists>m'. map_of d' t = Some (JDict m') \<and> map fst m' = map fst m \<and>
                     (\<forall>pkg. \<not> startswith pkg ''@styx/'' \<longrightarrow> map_of m' pkg = map_of m pkg)"
    if t: "t \<in> set dep_types" and m: "map_of d t = Some (JDict m)" for t m
  proof -
    from fix_dep_types_field[OF run' dist t m]
    have "map_of d' t = Some (JDict (fold rewrite_entry m m))" by simp
    moreover have "map fst (fold rewrite_entry m m) = map fst m"
      by (simp add: keys_fold_rewrite)
    moreover have "map_of (fold rewrite_entry m m) pkg = map_of m pkg"
      if "\<not> startswith pkg ''@styx/''" for pkg
      using that by (simp add: map_of_fold_rewrite internal_stale_def)
    ultimately show ?thesis by blast
  qed
  from c keys frame fields show ?thesis by blast
qed

theorem others_pass_through_witness:
  "contents a_world a_path = Some a_text \<and> json_load ex_lib a_text = Inr a_data \<and>
   fix_dependencies ex_lib a_path a_world = Inr a_world_after \<and>
   writes a_world_after \<noteq> writes a_world \<and>
   (\<exists>d'. contents a_world_after a_path = Some (json_dump (float_repr ex_lib) 2 (JDict d') @ [CHR 0x0A])
      \<and> map fst d' = [''dependencies'']
      \<and> (\<exists>m'. map_of d' ''dependencies'' = Some (JDict m')
            \<and> map fst m' = [''@styx/core'', ''lodash'']
            \<and> map_of m' ''lodash'' = Some (JStr ''^4.0.0'')))"
proof -
  let ?m = "[(''@styx/core'', JStr ''^1.0.0''), (''lodash'', JStr ''^4.0.0'')] :: (string \<times> unit json) list"
  let ?d = "[(''dependencies'', JDict ?m)]"
  have h1: "contents a_world a_path = Some a_text" by (simp add: ex_defs)
  have h2: "json_load ex_lib a_text = Inr (JDict ?d)" by (simp add: ex_defs)
  have h3: "fix_dependencies ex_lib a_path a_world = Inr a_world_after"
    by (simp add: fix_dependencies_def ex_defs fix_dep_types.simps(2) startswith_def)
  have h4: "writes a_world_after \<noteq> writes a_world" by (simp add: ex_defs)
  have h2': "json_load ex_lib a_text = Inr a_data" using h2 by (simp add: a_data_def)
  from others_pass_through[OF h1 h2 h3 h4] obtain d' where
    A: "contents a_world_after a_path = Some (json_dump (float_repr ex_lib) 2 (JDict d') @ [CHR 0x0A])"
    and B: "map fst d' = map fst ?d"
    and D: "\<forall>t\<in>set dep_types. \<forall>m. map_of ?d t = Some (JDict m) \<longrightarrow>
                  (\<exists>m'. map_of d' t = Some (JDict m') \<and> map fst m' = map fst m \<and>
                     (\<forall>pkg. \<not> startswith pkg ''@styx/'' \<longrightarrow> map_of m' pkg = map_of m pkg))"
    by blast
  have t: "''dependencies'' \<in> set dep_types" by simp
  have m: "map_of ?d ''dependencies'' = Some (JDict ?m)" by simp
  from D[rule_format, OF t m] obtain m' where
    E: "map_of d' ''dependencies'' = Some (JDict m')" and F: "map fst m' = map fst ?m"
    and G: "\<forall>pkg. \<not> startswith pkg ''@styx/'' \<longrightarrow> map_of m' pkg = map_of ?m pkg"
    by blast
  have n: "\<not> startswith ''lodash'' ''@styx/''" by (simp add: startswith_def)
  from G[rule_format, OF n] have G': "map_of m' ''lodash'' = Some (JStr ''^4.0.0'')" by simp
  from B have B': "map fst d' = [''dependencies'']" by simp
  from F have F': "map fst m' = [''@styx/core'', ''lodash'']" by simp
  from E F' G' have "\<exists>m'. map_of d' ''dependencies'' = Some (JDict m')
            \<and> map fst m' = [''@styx/core'', ''lodash'']
            \<and> map_of m' ''lodash'' = Some (JStr ''^4.0.0'')"
    by - (rule exI[of _ m'], intro conjI)
  with A B' have "\<exists>d'. contents a_world_after a_path = Some (json_dump (float_repr ex_lib) 2 (JDict d') @ [CHR 0x0A])
      \<and> map fst d' = [''dependencies'']
      \<and> (\<exists>m'. map_of d' ''dependencies'' = Some (JDict m')
            \<and> map fst m' = [''@styx/core'', ''lodash'']
            \<and> map_of m' ''lodash'' = Some (JStr ''^4.0.0''))"
    by - (rule exI[of _ d'], intro conjI)
  with h1 h2' h3 h4 show ?thesis by (intro conjI)
qed





text \<open>
  C9. For a package whose name starts with \<^verbatim>\<open>@styx/\<close> in one of the three
  dependency dicts of a parsed object, whatever JSON value it carries other than the
  string \<^verbatim>\<open>workspace:*\<close> (a string, a number, an object, ...), a returning call
  writes the file, and in the object dumped the package carries the string
  \<^verbatim>\<open>workspace:*\<close>. No test on the kind of the value stands in the way.
\<close>

theorem any_value_replaced:
  assumes "contents w p = Some text" and "json_load L text = Inr (JDict d)"
    and "t \<in> set dep_types" and "map_of d t = Some (JDict m)"
    and "map_of m pkg = Some v" and "startswith pkg ''@styx/''" and "v \<noteq> JStr ''workspace:*''"
    and "fix_dependencies L p w = Inr w'"
  shows "\<exists>d' m'. contents w' p = Some (json_dump (float_repr L) 2 (JDict d') @ [CHR 0x0A])
            \<and> map_of d' t = Some (JDict m')
            \<and> map_of m' pkg = Some (JStr ''workspace:*'')"
proof -
  from scan_result[OF assms(1,2,8)] obtain data' changed log where
    run: "fix_dep_types p dep_types (JDict d) False [] = Inr (data', changed, log)" and
    w': "w' = (if changed
          then w\<lparr>contents := (contents w)(p \<mapsto> json_dump (float_repr L) 2 data' @ [CHR 0x0A]),
                 stdout := stdout w @ log, writes := writes w @ [p]\<rparr>
          else w\<lparr>stdout := stdout w @ log\<rparr>)"
    by blast
  have dist: "distinct dep_types" by simp
  from assms(5) have mem: "(pkg, v) \<in> set m" by (rule map_of_SomeD)
  moreover from assms(6,7) have "internal_stale (pkg, v)" by (simp add: internal_stale_def)
  ultimately have st: "list_ex internal_stale m" unfolding list_ex_iff by blast
  with assms(3,4) have "stale_in dep_types d" unfolding stale_in_def by blast
  with fix_dep_types_changed[OF run dist] have changed by simp
  from fix_dep_types_shape[OF run] obtain d' where d': "data' = JDict d'" by blast
  from fix_dep_types_field[OF run[unfolded d'] dist assms(3,4)]
  have f: "map_of d' t = Some (JDict (fold rewrite_entry m m))" by simp
  from mem assms(6,7) have g: "map_of (fold rewrite_entry m m) pkg = Some (JStr ''workspace:*'')"
    by (auto simp: map_of_fold_rewrite internal_stale_def)
  from w' \<open>changed\<close> d'
  have "contents w' p = Some (json_dump (float_repr L) 2 (JDict d') @ [CHR 0x0A])" by simp
  with f g show ?thesis by blast
qed

theorem any_value_replaced_witness:
  "contents c_world c_path = Some c_text \<and> json_load ex_lib c_text = Inr c_data \<and>
   ''peerDependencies'' \<in> set dep_types \<and>
   startswith ''@styx/sdk'' ''@styx/'' \<and>
   JDict [(''range'', JInt 1)] \<noteq> (JStr ''workspace:*'' :: unit json) \<and>
   fix_dependencies ex_lib c_path c_world =
     Inr (c_world\<lparr>contents := (contents c_world)
                    (c_path \<mapsto> json_dump (float_repr ex_lib) 2 c_fixed @ [CHR 0x0A]),
            stdout := [Updating ''@styx/sdk'' c_path (JDict [(''range'', JInt 1)])],
            writes := [c_path]\<rparr>) \<and>
   (\<exists>d' m'. json_dump (float_repr ex_lib) 2 c_fixed = json_dump (float_repr ex_lib) 2 (JDict d')
      \<and> map_of d' ''peerDependencies'' = Some (JDict m')
      \<and> map_of m' ''@styx/sdk'' = Some (JStr ''workspace:*''))"
proof -
  let ?v = "JDict [(''range'', JInt 1)] :: unit json"
  let ?m = "[(''@styx/sdk'', ?v)]"
  let ?d = "[(''version'', JStr ''1.0.0''), (''peerDependencies'', JDict ?m)]"
  let ?w' = "c_world\<lparr>contents := (contents c_world)
                    (c_path \<mapsto> json_dump (float_repr ex_lib) 2 c_fixed @ [CHR 0x0A]),
            stdout := [Updating ''@styx/sdk'' c_path ?v],
            writes := [c_path]\<rparr>"
  have h1: "contents c_world c_path = Some c_text" by (simp add: ex_defs ex_paths ex_worlds)
  have h2: "json_load ex_lib c_text = Inr (JDict ?d)" by (simp add: ex_defs)
  have h2': "json_load ex_lib c_text = Inr c_data" using h2 by (simp add: c_data_def)
  have h3: "''peerDependencies'' \<in> set dep_types" by simp
  have h4: "map_of ?d ''peerDependencies'' = Some (JDict ?m)" by simp
  have h5: "map_of ?m ''@styx/sdk'' = Some ?v" by simp
  have h6: "startswith ''@styx/sdk'' ''@styx/''" by (simp add: startswith_def)
  have h7: "?v \<noteq> JStr ''workspace:*''" by simp
  have h8: "fix_dependencies ex_lib c_path c_world = Inr ?w'"
    by (simp add: fix_dependencies_def ex_defs ex_paths ex_worlds fix_dep_types.simps(2)
          startswith_def)
  from any_value_replaced[OF h1 h2 h3 h4 h5 h6 h7 h8] obtain d' m' where
    A: "contents ?w' c_path = Some (json_dump (float_repr ex_lib) 2 (JDict d') @ [CHR 0x0A])"
    and B: "map_of d' ''peerDependencies'' = Some (JDict m')"
    and C: "map_of m' ''@styx/sdk'' = Some (JStr ''workspace:*'')" by blast
  from A have A': "json_dump (float_repr ex_lib) 2 c_fixed = json_dump (float_repr ex_lib) 2 (JDict d')"
    by simp
  from A' B C have "\<exists>d' m'. json_dump (float_repr ex_lib) 2 c_fixed = json_dump (float_repr ex_lib) 2 (JDict d')
      \<and> map_of d' ''peerDependencies'' = Some (JDict m')
      \<and> map_of m' ''@styx/sdk'' = Some (JStr ''workspace:*'')"
    by - (rule exI[of _ d'], rule exI[of _ m'], intro conjI)
  with h1 h2' h3 h6 h7 h8 show ?thesis by (intro conjI)
qed

text \<open>
  C10. When the parsed object has one of the three dependency field names with a value
  that is not an object, \<^verbatim>\<open>fix_dependencies\<close> raises \<^verbatim>\<open>AttributeError\<close>
  (from \<^verbatim>\<open>.items()\<close>); no file content has changed and nothing was opened for
  writing; nothing catches the exception, so the loop of \<^verbatim>\<open>main\<close> ends with it
  and the remaining files are not processed.
\<close>

theorem shape_violation_aborts:
  assumes "contents w p = Some text" and "json_load L text = Inr (JDict d)"
    and "t \<in> set dep_types" and "map_of d t = Some v" and "\<forall>m. v \<noteq> JDict m"
  shows "\<exists>w'. fix_dependencies L p w = Inl (AttributeError, w')
            \<and> contents w' = contents w \<and> writes w' = writes w
            \<and> process_files L (p # rest) w = Inl (AttributeError, w')"
proof -
  from fix_dep_types_attribute_error[OF assms(3-5)] obtain log where
    "fix_dep_types p dep_types (JDict d) False [] = Inl (AttributeError, log)" by blast
  with assms(1,2) show ?thesis by (simp add: fix_dependencies_parsed)
qed

theorem shape_violation_aborts_witness:
  "contents e_world e_path = Some e_text \<and> json_load ex_lib e_text = Inr e_data \<and>
   ''dependencies'' \<in> set dep_types \<and>
   fix_dependencies ex_lib e_path e_world = Inl (AttributeError, e_world) \<and>
   process_files ex_lib [e_path, a_path] e_world = Inl (AttributeError, e_world)"
proof -
  let ?v = "JStr ''@styx/core'' :: unit json"
  let ?d = "[(''dependencies'', ?v)]"
  have h1: "contents e_world e_path = Some e_text" by (simp add: ex_defs ex_paths ex_worlds)
  have h2: "json_load ex_lib e_text = Inr (JDict ?d)" by (simp add: ex_defs)
  have h2': "json_load ex_lib e_text = Inr e_data" using h2 by (simp add: e_data_def)
  have h3: "''dependencies'' \<in> set dep_types" by simp
  have h4: "map_of ?d ''dependencies'' = Some ?v" by simp
  have h5: "\<forall>m. ?v \<noteq> JDict m" by simp
  have r: "fix_dependencies ex_lib e_path e_world = Inl (AttributeError, e_world)"
    by (simp add: fix_dependencies_def ex_defs ex_paths ex_worlds fix_dep_types.simps(2))
  from shape_violation_aborts[OF h1 h2 h3 h4 h5, of "[a_path]"] obtain w' where
    A: "fix_dependencies ex_lib e_path e_world = Inl (AttributeError, w')"
    and B: "process_files ex_lib [e_path, a_path] e_world = Inl (AttributeError, w')" by blast
  from A r have "w' = e_world" by simp
  with B have c: "process_files ex_lib [e_path, a_path] e_world = Inl (AttributeError, e_world)"
    by simp
  from h1 h2' h3 r c show ?thesis by (intro conjI)
qed

text \<open>
  C6, as the code has it. A path is recorded exactly when it is \<^verbatim>\<open>package.json\<close>
  joined to the path of a directory of the tree that directly holds a non-directory
  entry named \<^verbatim>\<open>package.json\<close> and whose path, as \<^verbatim>\<open>os.walk\<close> builds it from
  \<^verbatim>\<open>.\<close>, does not contain \<^verbatim>\<open>node_modules\<close> as a substring. A directory is
  thus skipped as soon as the text of its path contains that word, also inside a longer
  name.
\<close>

theorem discovery_by_substring:
  "p \<in> set (find_package_files (os_walk ''.'' t) []) \<longleftrightarrow>
     (\<exists>ns nondirs subs. Dir nondirs subs \<in> set (dirs_at t ns)
        \<and> ''package.json'' \<in> set nondirs
        \<and> \<not> str_contains ''node_modules'' (walk_path ''.'' ns)
        \<and> p = os_path_join (walk_path ''.'' ns) ''package.json'')"
proof
  assume "p \<in> set (find_package_files (os_walk ''.'' t) [])"
  then obtain r ds fs where e: "(r, ds, fs) \<in> set (os_walk ''.'' t)"
    "\<not> str_contains ''node_modules'' r" "''package.json'' \<in> set fs"
    "p = os_path_join r ''package.json''"
    by (auto simp: find_package_files_eq)
  from e(1) obtain ns subs where "Dir fs subs \<in> set (dirs_at t ns)" "r = walk_path ''.'' ns"
    unfolding os_walk_iff by blast
  with e(2-4) show "\<exists>ns nondirs subs. Dir nondirs subs \<in> set (dirs_at t ns)
        \<and> ''package.json'' \<in> set nondirs
        \<and> \<not> str_contains ''node_modules'' (walk_path ''.'' ns)
        \<and> p = os_path_join (walk_path ''.'' ns) ''package.json''" by blast
next
  assume "\<exists>ns nondirs subs. Dir nondirs subs \<in> set (dirs_at t ns)
        \<and> ''package.json'' \<in> set nondirs
        \<and> \<not> str_contains ''node_modules'' (walk_path ''.'' ns)
        \<and> p = os_path_join (walk_path ''.'' ns) ''package.json''"
  then obtain ns nondirs subs where a: "Dir nondirs subs \<in> set (dirs_at t ns)"
    "''package.json'' \<in> set nondirs" "\<not> str_contains ''node_modules'' (walk_path ''.'' ns)"
    "p = os_path_join (walk_path ''.'' ns) ''package.json''" by blast
  from a(1) have "(walk_path ''.'' ns, map fst subs, nondirs) \<in> set (os_walk ''.'' t)"
    unfolding os_walk_iff by blast
  with a(2-4) show "p \<in> set (find_package_files (os_walk ''.'' t) [])"
    by (force simp: find_package_files_eq)
qed

theorem discovery_by_substring_witness:
  "Dir [''package.json'']
       [(''node_modules'', Dir [] [(''@styx'', Dir [] [(''core'', Dir [''package.json''] [])])])]
     \<in> set (dirs_at ex_tree [''packages'', ''a'']) \<and>
   \<not> str_contains ''node_modules'' (walk_path ''.'' [''packages'', ''a'']) \<and>
   a_path = os_path_join (walk_path ''.'' [''packages'', ''a'']) ''package.json'' \<and>
   a_path \<in> set (find_package_files (os_walk ''.'' ex_tree) [])"
proof -
  let ?subs = "[(''node_modules'', Dir [] [(''@styx'', Dir [] [(''core'', Dir [''package.json''] [])])])]"
  have h1: "Dir [''package.json''] ?subs \<in> set (dirs_at ex_tree [''packages'', ''a''])"
    by (simp add: ex_paths)
  have h2: "''package.json'' \<in> set [''package.json'']" by simp
  have h3: "\<not> str_contains ''node_modules'' (walk_path ''.'' [''packages'', ''a''])"
    by (simp add: walk_path_def os_path_join_def startswith_def)
  have h4: "a_path = os_path_join (walk_path ''.'' [''packages'', ''a'']) ''package.json''"
    by (simp add: walk_path_def os_path_join_def startswith_def a_path_def)
  from h1 h2 h3 h4 have "\<exists>ns nondirs subs. Dir nondirs subs \<in> set (dirs_at ex_tree ns)
        \<and> ''package.json'' \<in> set nondirs
        \<and> \<not> str_contains ''node_modules'' (walk_path ''.'' ns)
        \<and> a_path = os_path_join (walk_path ''.'' ns) ''package.json''"
    by - (rule exI[of _ "[''packages'', ''a'']"], rule exI[of _ "[''package.json'']"],
          rule exI[of _ ?subs], intro conjI)
  then have "a_path \<in> set (find_package_files (os_walk ''.'' ex_tree) [])"
    by (rule discovery_by_substring[THEN iffD2])
  with h1 h3 h4 show ?thesis by (intro conjI)
qed

text \<open>
  C6 as the specification states it, with a directory skipped exactly when a segment of
  its path equals \<^verbatim>\<open>node_modules\<close>, fails: \<^verbatim>\<open>./node_modules_old\<close> holds a
  \<^verbatim>\<open>package.json\<close> and has no such segment, and is not recorded.
\<close>

theorem discovery_by_segment_counterexample:
  "Dir [''package.json''] [] \<in> set (dirs_at ex_tree [''node_modules_old'']) \<and>
   walk_path ''.'' [''node_modules_old''] = ''./node_modules_old'' \<and>
   ''node_modules'' \<notin> set (split_path ''./node_modules_old'') \<and>
   os_path_join ''./node_modules_old'' ''package.json'' = old_path \<and>
   old_path \<notin> set (find_package_files (os_walk ''.'' ex_tree) [])"
  by (simp add: ex_paths walk_path_def os_path_join_def startswith_def)

text \<open>
  C7. A path with a segment equal to \<^verbatim>\<open>node_modules\<close> is never among the paths
  \<^verbatim>\<open>main\<close> discovers, whatever the tree; and whether the run returns or raises,
  the file at that path has the content it had before, and the path is not among those
  opened for writing during the run.
\<close>

theorem excluded_never_touched:
  assumes "''node_modules'' \<in> set (split_path p)"
  shows "p \<notin> set (find_package_files (os_walk ''.'' t) [])
       \<and> contents (final_world (main L t w)) p = contents w p
       \<and> (\<exists>ws. writes (final_world (main L t w)) = writes w @ ws \<and> p \<notin> set ws)"
proof -
  have n: "p \<notin> set (find_package_files (os_walk ''.'' t) [])"
  proof
    assume "p \<in> set (find_package_files (os_walk ''.'' t) [])"
    then obtain root where "\<not> str_contains ''node_modules'' root"
      "p = os_path_join root ''package.json''"
      by (auto simp: find_package_files_eq)
    with assms segment_of_joined show False by blast
  qed
  from process_files_frame[OF n, of L w] show ?thesis
    using n unfolding main_def by blast
qed

theorem excluded_never_touched_witness:
  "''node_modules'' \<in> set (split_path nm_path) \<and>
   contents tree_world nm_path = Some a_text \<and> has_stale_entry a_data \<and>
   nm_path \<notin> set (find_package_files (os_walk ''.'' ex_tree) []) \<and>
   contents (final_world (main ex_lib ex_tree tree_world)) nm_path = Some a_text \<and>
   (\<exists>ws. writes (final_world (main ex_lib ex_tree tree_world)) = writes tree_world @ ws
         \<and> nm_path \<notin> set ws)"
proof -
  have h: "''node_modules'' \<in> set (split_path nm_path)" by (simp add: ex_paths)
  have c: "contents tree_world nm_path = Some a_text" by (simp add: ex_paths ex_defs)
  have s: "has_stale_entry a_data" by (simp add: ex_defs internal_stale_def startswith_def)
  note T = excluded_never_touched[OF h, of ex_tree ex_lib tree_world]
  from T have t1: "nm_path \<notin> set (find_package_files (os_walk ''.'' ex_tree) [])"
    by (rule conjunct1)
  from T have "contents (final_world (main ex_lib ex_tree tree_world)) nm_path
                 = contents tree_world nm_path"
    by (rule conjunct1[OF conjunct2])
  with c have t2: "contents (final_world (main ex_lib ex_tree tree_world)) nm_path = Some a_text"
    by simp
  from T have t3: "\<exists>ws. writes (final_world (main ex_lib ex_tree tree_world)) = writes tree_world @ ws
         \<and> nm_path \<notin> set ws"
    by (rule conjunct2[OF conjunct2])
  from h c s t1 t2 t3 show ?thesis by (intro conjI)
qed

text \<open>
  C3. Suppose a run of \<^verbatim>\<open>main\<close> returns, and on every discovered file the library
  reads back what the script writes: when the scan changes the parsed value, that value
  has no repeated key and the text written, the dump and a newline, parses to the value
  dumped. Then a second run over the same tree returns too and leaves the content of
  every file and the list of files opened for writing exactly as the first run left
  them; and after the first run no discovered file that parses holds an internal entry
  whose specifier is not \<^verbatim>\<open>workspace:*\<close>.
\<close>

theorem second_run_changes_nothing:
  assumes "main L t w = Inr w1"
    and "\<forall>p\<in>set (find_package_files (os_walk ''.'' t) []). reads_back L p (contents w p)"
  shows "\<exists>w2. main L t w1 = Inr w2 \<and> contents w2 = contents w1 \<and> writes w2 = writes w1
            \<and> (\<forall>p\<in>set (find_package_files (os_walk ''.'' t) []). \<forall>body data.
                  contents w1 p = Some body \<and> json_load L body = Inr data
                    \<longrightarrow> \<not> has_stale_entry data)"
proof -
  let ?ps = "find_package_files (os_walk ''.'' t) []"
  from assms(1) have run: "process_files L ?ps w = Inr w1" by (simp add: main_def)
  from process_files_settles[OF run assms(2)]
  have st: "\<forall>p\<in>set ?ps. settled L p (contents w1 p)" .
  from process_files_quiet[OF st] obtain w2 where
    "main L t w1 = Inr w2" "contents w2 = contents w1" "writes w2 = writes w1"
    unfolding main_def by blast
  moreover have "\<forall>p\<in>set ?ps. \<forall>body data.
                  contents w1 p = Some body \<and> json_load L body = Inr data
                    \<longrightarrow> \<not> has_stale_entry data"
    using st settled_no_stale by metis
  ultimately show ?thesis by blast
qed


theorem second_run_changes_nothing_witness:
  "main ex_lib ex_tree tree_world = Inr tree_world_after \<and>
   find_package_files (os_walk ''.'' ex_tree) [] = [b_path, a_path, bad_path] \<and>
   reads_back ex_lib b_path (contents tree_world b_path) \<and>
   reads_back ex_lib a_path (contents tree_world a_path) \<and>
   reads_back ex_lib bad_path (contents tree_world bad_path) \<and>
   contents tree_world a_path \<noteq> contents tree_world_after a_path \<and>
   (\<exists>w2. main ex_lib ex_tree tree_world_after = Inr w2
        \<and> contents w2 = contents tree_world_after \<and> writes w2 = writes tree_world_after
        \<and> (\<forall>p\<in>set (find_package_files (os_walk ''.'' ex_tree) []). \<forall>body data.
              contents tree_world_after p = Some body \<and> json_load ex_lib body = Inr data
                \<longrightarrow> \<not> has_stale_entry data))"
proof -
  have ps: "find_package_files (os_walk ''.'' ex_tree) [] = [b_path, a_path, bad_path]"
    by (simp add: ex_paths a_path_def os_path_join_def startswith_def)
  have rb: "reads_back ex_lib b_path (contents tree_world b_path)"
    by (simp add: reads_back_def ex_defs ex_paths fix_dep_types.simps(2) startswith_def)
  have ra: "reads_back ex_lib a_path (contents tree_world a_path)"
    by (simp add: reads_back_def ex_defs ex_paths fix_dep_types.simps(2) startswith_def)
  have rd: "reads_back ex_lib bad_path (contents tree_world bad_path)"
    by (simp add: reads_back_def ex_defs ex_paths)
  from rb ra rd have h2: "\<forall>p\<in>set (find_package_files (os_walk ''.'' ex_tree) []).
      reads_back ex_lib p (contents tree_world p)"
    by (simp add: ps)
  have h1: "main ex_lib ex_tree tree_world = Inr tree_world_after"
    unfolding main_def ps
    by (simp add: fix_dependencies_def tree_world_after_def ex_defs ex_paths
          fix_dep_types.simps(2) startswith_def)
  have d: "contents tree_world a_path \<noteq> contents tree_world_after a_path"
    by (simp add: tree_world_after_def ex_defs ex_paths json_dump_def)
  from second_run_changes_nothing[OF h1 h2] h1 ps rb ra rd d show ?thesis by (intro conjI)
qed

end
